theory Spec2Isabelle
  imports Main "HOL-Library.AList"
begin

section \<open>Data model\<close>

text \<open>
  A Python \<open>dict\<close> is an association list in insertion order with unique keys.
  Reading a key is \<open>map_of\<close>, the key test \<open>k in d\<close> is membership in
  \<open>map fst d\<close>, and the assignment \<open>d[k] = v\<close> is \<open>AList.update k v d\<close>:
  an existing key keeps its position, a new key goes to the end.
\<close>

type_synonym deps = "(string \<times> string) list"

text \<open>
  The metadata record of a package. The code only reads its \<open>dependencies\<close> entry,
  with \<open>{}\<close> as the default when the entry is absent (\<open>None\<close> here).
\<close>

record metadata =
  dependencies :: "deps option"

type_synonym fixture = "(string \<times> metadata) list"

text \<open>
  The answer of the registry to one HTTP request: the status code and the \<open>versions\<close>
  entry of the JSON body (\<open>None\<close> when the body has no such entry).
\<close>

record response =
  status_code :: int
  versions :: "(string \<times> metadata) list option"

text \<open>
  What the analyzer reads from outside: the JSON files by path (\<open>None\<close> for a missing
  file) and the registry by URL. Both are fixed for the duration of one run.
\<close>

record world =
  files :: "string \<Rightarrow> fixture option"
  http_get :: "string \<Rightarrow> response"

record config =
  package_name :: string
  repository_url :: string
  mode :: string
  version :: string
  output_file :: string
  max_depth :: int

datatype error = FileNotFoundError string | ValueError string

text \<open>
  The observable events of a traversal, in order: every entry into
  \<open>build_dependency_graph\<close> with its arguments (name, version, depth, path), every
  invocation of \<open>get_package_info\<close> (name, version), and every printed cycle report
  (the printed line). The listings printed by \<open>get_direct_dependencies\<close> and
  \<open>run_analysis\<close> leave no event.
\<close>

datatype event =
  Call string string int "string list"
| Fetch string string
| CycleReport string

record analyzer =
  dependency_graph :: "(string \<times> deps) list"
  trace :: "event list"

definition dict_get :: "('k \<times> 'v) list \<Rightarrow> 'k \<Rightarrow> 'v \<Rightarrow> 'v" where
  "dict_get d k dflt = (case map_of d k of None \<Rightarrow> dflt | Some v \<Rightarrow> v)"

definition keys :: "('k \<times> 'v) list \<Rightarrow> 'k list" where
  "keys d = map fst d"

fun join :: "string \<Rightarrow> string list \<Rightarrow> string" where
  "join sep [] = []"
| "join sep [x] = x"
| "join sep (x # y # ys) = x @ sep @ join sep (y # ys)"

section \<open>Messages\<close>

text \<open>The fixed parts of the messages, as the UTF-8 bytes of the Russian text of the source.\<close>

definition cycle_prefix :: string where
  "cycle_prefix = [
      CHR 0xD0, CHR 0x9E, CHR 0xD0, CHR 0xB1, CHR 0xD0, CHR 0xBD, CHR 0xD0, CHR 0xB0,
      CHR 0xD1, CHR 0x80, CHR 0xD1, CHR 0x83, CHR 0xD0, CHR 0xB6, CHR 0xD0, CHR 0xB5,
      CHR 0xD0, CHR 0xBD, CHR 0xD0, CHR 0xB0, CHR 0x20, CHR 0xD1, CHR 0x86, CHR 0xD0,
      CHR 0xB8, CHR 0xD0, CHR 0xBA, CHR 0xD0, CHR 0xBB, CHR 0xD0, CHR 0xB8, CHR 0xD1,
      CHR 0x87, CHR 0xD0, CHR 0xB5, CHR 0xD1, CHR 0x81, CHR 0xD0, CHR 0xBA, CHR 0xD0,
      CHR 0xB0, CHR 0xD1, CHR 0x8F, CHR 0x20, CHR 0xD0, CHR 0xB7, CHR 0xD0, CHR 0xB0,
      CHR 0xD0, CHR 0xB2, CHR 0xD0, CHR 0xB8, CHR 0xD1, CHR 0x81, CHR 0xD0, CHR 0xB8,
      CHR 0xD0, CHR 0xBC, CHR 0xD0, CHR 0xBE, CHR 0xD1, CHR 0x81, CHR 0xD1, CHR 0x82,
      CHR 0xD1, CHR 0x8C, CHR 0x3A, CHR 0x20]"

definition resolution_prefix :: string where
  "resolution_prefix = [
      CHR 0xD0, CHR 0x9D, CHR 0xD0, CHR 0xB5, CHR 0x20, CHR 0xD1, CHR 0x83, CHR 0xD0,
      CHR 0xB4, CHR 0xD0, CHR 0xB0, CHR 0xD0, CHR 0xBB, CHR 0xD0, CHR 0xBE, CHR 0xD1,
      CHR 0x81, CHR 0xD1, CHR 0x8C, CHR 0x20, CHR 0xD0, CHR 0xBF, CHR 0xD0, CHR 0xBE,
      CHR 0xD0, CHR 0xBB, CHR 0xD1, CHR 0x83, CHR 0xD1, CHR 0x87, CHR 0xD0, CHR 0xB8,
      CHR 0xD1, CHR 0x82, CHR 0xD1, CHR 0x8C, CHR 0x20, CHR 0xD0, CHR 0xB8, CHR 0xD0,
      CHR 0xBD, CHR 0xD1, CHR 0x84, CHR 0xD0, CHR 0xBE, CHR 0xD1, CHR 0x80, CHR 0xD0,
      CHR 0xBC, CHR 0xD0, CHR 0xB0, CHR 0xD1, CHR 0x86, CHR 0xD0, CHR 0xB8, CHR 0xD1,
      CHR 0x8E, CHR 0x20, CHR 0xD0, CHR 0xBE, CHR 0x20, CHR 0xD0, CHR 0xBF, CHR 0xD0,
      CHR 0xB0, CHR 0xD0, CHR 0xBA, CHR 0xD0, CHR 0xB5, CHR 0xD1, CHR 0x82, CHR 0xD0,
      CHR 0xB5, CHR 0x20]"

definition test_file_missing :: string where
  "test_file_missing = [
      CHR 0xD0, CHR 0xA2, CHR 0xD0, CHR 0xB5, CHR 0xD1, CHR 0x81, CHR 0xD1, CHR 0x82,
      CHR 0xD0, CHR 0xBE, CHR 0xD0, CHR 0xB2, CHR 0xD1, CHR 0x8B, CHR 0xD0, CHR 0xB9,
      CHR 0x20, CHR 0xD1, CHR 0x84, CHR 0xD0, CHR 0xB0, CHR 0xD0, CHR 0xB9, CHR 0xD0,
      CHR 0xBB, CHR 0x20, CHR 0xD0, CHR 0xBD, CHR 0xD0, CHR 0xB5, CHR 0x20, CHR 0xD0,
      CHR 0xBD, CHR 0xD0, CHR 0xB0, CHR 0xD0, CHR 0xB9, CHR 0xD0, CHR 0xB4, CHR 0xD0,
      CHR 0xB5, CHR 0xD0, CHR 0xBD]"

definition cycle_message :: "string list \<Rightarrow> string" where
  "cycle_message chain = cycle_prefix @ join '' -> '' chain"

definition resolution_message :: "string \<Rightarrow> string" where
  "resolution_message pname = resolution_prefix @ pname"

section \<open>Package Info Source\<close>

text \<open>
  \<open>get_package_info\<close>, branch by branch. In test mode the file at \<open>repository_url\<close> is
  read on every call; a missing file raises \<open>FileNotFoundError\<close>, and a missing package
  name gives the default \<open>{}\<close> of \<open>test_data.get\<close>. In every other mode the URL is the
  base URL, a slash and the package name. With status 200 the requested version is looked
  up in \<open>versions\<close> (default \<open>{}\<close>); when it is not a key, \<open>first_version\<close> is the first
  key of the mapping, or \<open>None\<close> for an empty mapping, and the test \<open>if first_version\<close> is
  Python's truth test, which the empty string fails as \<open>None\<close> does. The entry of the first
  key is the first entry, the keys of a mapping being unique. Every path that does not
  return ends in the \<open>ValueError\<close> of the last line.
\<close>

definition get_package_info :: "config \<Rightarrow> world \<Rightarrow> string \<Rightarrow> string \<Rightarrow> error + metadata" where
  "get_package_info cfg w pname ver =
     (if mode cfg = ''test'' then
        (case files w (repository_url cfg) of
           None \<Rightarrow> Inl (FileNotFoundError test_file_missing)
         | Some test_data \<Rightarrow> Inr (dict_get test_data pname \<lparr>dependencies = None\<rparr>))
      else
        (let resp = http_get w (repository_url cfg @ ''/'' @ pname) in
         if status_code resp = 200 then
           (let vs = (case versions resp of None \<Rightarrow> [] | Some m \<Rightarrow> m) in
            case map_of vs ver of
              Some info \<Rightarrow> Inr info
            | None \<Rightarrow>
                (case vs of
                   [] \<Rightarrow> Inl (ValueError (resolution_message pname))
                 | (first_version, info) # _ \<Rightarrow>
                     if first_version \<noteq> [] then Inr info
                     else Inl (ValueError (resolution_message pname))))
         else Inl (ValueError (resolution_message pname))))"

text \<open>The read \<open>package_info.get('dependencies', {})\<close>.\<close>

definition dependencies_of :: "metadata \<Rightarrow> deps" where
  "dependencies_of package_info = (case dependencies package_info of None \<Rightarrow> [] | Some d \<Rightarrow> d)"

text \<open>
  \<open>get_direct_dependencies\<close> calls the source and reads the \<open>dependencies\<close> entry. The
  call is logged before its outcome is known; an exception leaves with the state reached.
\<close>

definition get_direct_dependencies ::
  "config \<Rightarrow> world \<Rightarrow> string \<Rightarrow> string \<Rightarrow> analyzer \<Rightarrow> (error \<times> analyzer) + (deps \<times> analyzer)" where
  "get_direct_dependencies cfg w pname ver s =
     (let s1 = s\<lparr>trace := trace s @ [Fetch pname ver]\<rparr> in
      case get_package_info cfg w pname ver of
        Inl e \<Rightarrow> Inl (e, s1)
      | Inr package_info \<Rightarrow>
          Inr (dependencies_of package_info, s1))"

section \<open>Graph Builder\<close>

text \<open>
  \<open>build_dependency_graph\<close> with the loop over the fetched dependencies as
  \<open>for_deps\<close>, which carries the caller's depth and \<open>current_path\<close>. The result is
  \<open>Inr\<close> the state on return and \<open>Inl\<close> the exception with the state reached when
  the call raises; no call has a handler, so an exception of a callee is passed on as it
  is. The entry into the function is logged first; then come the depth guard, the cycle
  guard, the fetch, the assignment \<open>dependency_graph[package_name] = dependencies\<close> and the
  loop, which descends only into a name that is not a key of the graph at that moment.
  The arguments \<open>depth\<close> and \<open>max_depth\<close> are Python integers.
\<close>

function (domintros) build_dependency_graph ::
    "config \<Rightarrow> world \<Rightarrow> string \<Rightarrow> string \<Rightarrow> int \<Rightarrow> string list \<Rightarrow> analyzer \<Rightarrow> (error \<times> analyzer) + analyzer"
  and for_deps ::
    "config \<Rightarrow> world \<Rightarrow> deps \<Rightarrow> int \<Rightarrow> string list \<Rightarrow> analyzer \<Rightarrow> (error \<times> analyzer) + analyzer"
where
  "build_dependency_graph cfg w pname ver depth path s0 =
     (let s = s0\<lparr>trace := trace s0 @ [Call pname ver depth path]\<rparr> in
      if depth > max_depth cfg then Inr s
      else if pname \<in> set path then
        Inr (s\<lparr>trace := trace s @ [CycleReport (cycle_message (path @ [pname]))]\<rparr>)
      else
        (case get_direct_dependencies cfg w pname ver s of
           Inl x \<Rightarrow> Inl x
         | Inr (deps, s1) \<Rightarrow>
             for_deps cfg w deps depth (path @ [pname])
               (s1\<lparr>dependency_graph := AList.update pname deps (dependency_graph s1)\<rparr>)))"
| "for_deps cfg w [] depth current_path s = Inr s"
| "for_deps cfg w ((dep_name, dep_version) # rest) depth current_path s =
     (if dep_name \<notin> set (keys (dependency_graph s)) then
        (case build_dependency_graph cfg w dep_name dep_version (depth + 1) current_path s of
           Inl x \<Rightarrow> Inl x
         | Inr s' \<Rightarrow> for_deps cfg w rest depth current_path s')
      else for_deps cfg w rest depth current_path s)"
  by pat_completeness auto

text \<open>
  Termination: a call at depth \<open>d\<close> that gets past the depth guard has \<open>d \<le> max_depth\<close>,
  so the distance \<open>max_depth + 2 - d\<close> shrinks on the way into the loop and from the loop
  into a child; inside the loop the list of remaining dependencies shrinks. The path and
  the state play no part in the measure.
\<close>

termination
  by (relation "measures
        [\<lambda>x. case x of
                Inl (cfg, w, pname, ver, depth, path, s) \<Rightarrow> nat (max_depth cfg + 2 - depth)
              | Inr (cfg, w, ds, depth, path, s) \<Rightarrow> nat (max_depth cfg + 1 - depth),
         \<lambda>x. case x of Inl _ \<Rightarrow> 0 | Inr (cfg, w, ds, depth, path, s) \<Rightarrow> Suc (length ds)]")
     auto

text \<open>
  The analyzer as its constructor leaves it, and \<open>run_analysis\<close>, which starts the traversal
  at the configured root with depth 0 and the empty path.
\<close>

definition init :: analyzer where
  "init = \<lparr>dependency_graph = [], trace = []\<rparr>"

definition run_analysis :: "config \<Rightarrow> world \<Rightarrow> (error \<times> analyzer) + analyzer" where
  "run_analysis cfg w = build_dependency_graph cfg w (package_name cfg) (version cfg) 0 [] init"

section \<open>Reading a result and a trace\<close>

text \<open>The state reached by a call, whether it returned or raised.\<close>

fun state_of :: "(error \<times> analyzer) + analyzer \<Rightarrow> analyzer" where
  "state_of (Inl (e, s)) = s"
| "state_of (Inr s) = s"

fun returned :: "(error \<times> analyzer) + analyzer \<Rightarrow> bool" where
  "returned (Inl x) = False"
| "returned (Inr s) = True"

text \<open>The names for which the Package Info Source was invoked, in order.\<close>

fun fetched_names :: "event list \<Rightarrow> string list" where
  "fetched_names [] = []"
| "fetched_names (Fetch n v # es) = n # fetched_names es"
| "fetched_names (e # es) = fetched_names es"

fun cycle_reports :: "event list \<Rightarrow> string list" where
  "cycle_reports [] = []"
| "cycle_reports (CycleReport m # es) = m # cycle_reports es"
| "cycle_reports (e # es) = cycle_reports es"

text \<open>The events a call added to the trace of the state \<open>s\<close> it started from.\<close>

definition new_events :: "analyzer \<Rightarrow> (error \<times> analyzer) + analyzer \<Rightarrow> event list" where
  "new_events s r = drop (length (trace s)) (trace (state_of r))"

text \<open>
  \<open>fresh seen evs\<close>: every entry into \<open>build_dependency_graph\<close> and every invocation
  of the Package Info Source in \<open>evs\<close> is for a name that is not among the keys recorded
  so far, where \<open>seen\<close> are the keys at the start and each fetched name joins them.
\<close>

fun fresh :: "string list \<Rightarrow> event list \<Rightarrow> bool" where
  "fresh seen [] = True"
| "fresh seen (Call n v d p # es) = (n \<notin> set seen \<and> fresh seen es)"
| "fresh seen (Fetch n v # es) = (n \<notin> set seen \<and> fresh (seen @ [n]) es)"
| "fresh seen (CycleReport m # es) = fresh seen es"

text \<open>
  \<open>fetches_succeed cfg w evs\<close>: every invocation of the Package Info Source in \<open>evs\<close>
  is one that returns a metadata record.
\<close>

fun fetches_succeed :: "config \<Rightarrow> world \<Rightarrow> event list \<Rightarrow> bool" where
  "fetches_succeed cfg w [] = True"
| "fetches_succeed cfg w (Fetch n v # es) =
     (case get_package_info cfg w n v of
        Inl e \<Rightarrow> False
      | Inr info \<Rightarrow> fetches_succeed cfg w es)"
| "fetches_succeed cfg w (e # es) = fetches_succeed cfg w es"

section \<open>Scenarios\<close>

text \<open>
  A test-mode configuration with root \<open>A\<close> at version \<open>1.0\<close> and the fixture file
  \<open>fixture.json\<close>, for a given \<open>max_depth\<close>; and the world holding that one file.
\<close>

definition test_config :: "string \<Rightarrow> int \<Rightarrow> config" where
  "test_config root md =
     \<lparr>package_name = root, repository_url = ''fixture.json'', mode = ''test'',
      version = ''1.0'', output_file = ''graph.json'', max_depth = md\<rparr>"

definition test_world :: "fixture \<Rightarrow> world" where
  "test_world fx =
     \<lparr>files = (\<lambda>p. if p = ''fixture.json'' then Some fx else None),
      http_get = (\<lambda>u. \<lparr>status_code = 404, versions = None\<rparr>)\<rparr>"

definition diamond_fixture :: fixture where
  "diamond_fixture =
     [(''A'', \<lparr>dependencies = Some [(''B'', ''1.0''), (''C'', ''1.0'')]\<rparr>),
      (''B'', \<lparr>dependencies = Some []\<rparr>),
      (''C'', \<lparr>dependencies = Some [(''B'', ''1.0'')]\<rparr>)]"

definition chain_fixture :: fixture where
  "chain_fixture =
     [(''A'', \<lparr>dependencies = Some [(''B'', ''1.0'')]\<rparr>),
      (''B'', \<lparr>dependencies = Some [(''C'', ''1.0'')]\<rparr>),
      (''C'', \<lparr>dependencies = Some [(''D'', ''1.0'')]\<rparr>),
      (''D'', \<lparr>dependencies = Some []\<rparr>)]"

definition live_config :: "string \<Rightarrow> int \<Rightarrow> config" where
  "live_config root md =
     \<lparr>package_name = root, repository_url = ''https://registry.npmjs.org'', mode = ''live'',
      version = ''1.0'', output_file = ''graph.json'', max_depth = md\<rparr>"

text \<open>A registry that answers the listed URLs and gives status 404 for every other one.\<close>

definition registry_world :: "(string \<times> response) list \<Rightarrow> world" where
  "registry_world table =
     \<lparr>files = (\<lambda>p. None),
      http_get = (\<lambda>u. dict_get table u \<lparr>status_code = 404, versions = None\<rparr>)\<rparr>"

text \<open>
  A registry where \<open>A\<close> resolves and depends on \<open>B\<close> and \<open>E\<close>, \<open>B\<close> is unknown
  (status 404) and \<open>E\<close> answers with an empty \<open>versions\<close> mapping.
\<close>

definition failing_registry :: "(string \<times> response) list" where
  "failing_registry =
     [(''https://registry.npmjs.org/A'',
         \<lparr>status_code = 200,
          versions = Some [(''1.0'', \<lparr>dependencies = Some [(''B'', ''2.0''), (''E'', ''3.0'')]\<rparr>)]\<rparr>),
      (''https://registry.npmjs.org/E'', \<lparr>status_code = 200, versions = Some []\<rparr>)]"

text \<open>
  A registry whose answer for \<open>pkg\<close> has a non-empty \<open>versions\<close> mapping whose first
  key is the empty string.
\<close>

definition empty_key_registry :: "(string \<times> response) list" where
  "empty_key_registry =
     [(''https://registry.npmjs.org/pkg'',
         \<lparr>status_code = 200,
          versions = Some [([], \<lparr>dependencies = Some []\<rparr>),
                           (''2.0'', \<lparr>dependencies = Some []\<rparr>)]\<rparr>)]"

definition cycle_fixture :: fixture where
  "cycle_fixture =
     [(''A'', \<lparr>dependencies = Some [(''B'', ''1.0'')]\<rparr>),
      (''B'', \<lparr>dependencies = Some [(''A'', ''1.0'')]\<rparr>)]"

section \<open>The traversal, case by case\<close>

text \<open>
  The four ways through \<open>build_dependency_graph\<close>, as equations, and an induction rule
  over the traversal in which every case comes with the events it adds to the trace.
\<close>

declare build_dependency_graph.simps [simp del]

lemma build_depth_exceeded:
  "max_depth cfg < depth \<Longrightarrow>
   build_dependency_graph cfg w pname ver depth path s =
     Inr (s\<lparr>trace := trace s @ [Call pname ver depth path]\<rparr>)"
  by (simp add: build_dependency_graph.simps)

lemma build_cycle:
  "depth \<le> max_depth cfg \<Longrightarrow> pname \<in> set path \<Longrightarrow>
   build_dependency_graph cfg w pname ver depth path s =
     Inr (s\<lparr>trace := trace s @ [Call pname ver depth path, CycleReport (cycle_message (path @ [pname]))]\<rparr>)"
  by (simp add: build_dependency_graph.simps)

lemma build_raise:
  "depth \<le> max_depth cfg \<Longrightarrow> pname \<notin> set path \<Longrightarrow> get_package_info cfg w pname ver = Inl e \<Longrightarrow>
   build_dependency_graph cfg w pname ver depth path s =
     Inl (e, s\<lparr>trace := trace s @ [Call pname ver depth path, Fetch pname ver]\<rparr>)"
  by (simp add: build_dependency_graph.simps get_direct_dependencies_def)

lemma build_visit:
  "depth \<le> max_depth cfg \<Longrightarrow> pname \<notin> set path \<Longrightarrow> get_package_info cfg w pname ver = Inr info \<Longrightarrow>
   build_dependency_graph cfg w pname ver depth path s =
     for_deps cfg w (dependencies_of info) depth (path @ [pname])
       (s\<lparr>trace := trace s @ [Call pname ver depth path, Fetch pname ver],
          dependency_graph := AList.update pname (dependencies_of info) (dependency_graph s)\<rparr>)"
  by (simp add: build_dependency_graph.simps get_direct_dependencies_def)

lemma keys_update_new:
  "k \<notin> set (keys d) \<Longrightarrow> keys (AList.update k v d) = keys d @ [k]"
  by (induction d) (auto simp: keys_def)

lemma traversal_induct [case_names exceeded cycle raise visit nil skip descend_raise descend_return]:
  fixes P :: "config \<Rightarrow> world \<Rightarrow> string \<Rightarrow> string \<Rightarrow> int \<Rightarrow> string list \<Rightarrow> analyzer
                \<Rightarrow> event list \<Rightarrow> (error \<times> analyzer) + analyzer \<Rightarrow> bool"
    and Q :: "config \<Rightarrow> world \<Rightarrow> deps \<Rightarrow> int \<Rightarrow> string list \<Rightarrow> analyzer
                \<Rightarrow> event list \<Rightarrow> (error \<times> analyzer) + analyzer \<Rightarrow> bool"
  assumes exceeded: "\<And>cfg w pname ver depth path s.
      max_depth cfg < depth \<Longrightarrow>
      P cfg w pname ver depth path s [Call pname ver depth path]
        (Inr (s\<lparr>trace := trace s @ [Call pname ver depth path]\<rparr>))"
    and cycle: "\<And>cfg w pname ver depth path s.
      depth \<le> max_depth cfg \<Longrightarrow> pname \<in> set path \<Longrightarrow>
      P cfg w pname ver depth path s
        [Call pname ver depth path, CycleReport (cycle_message (path @ [pname]))]
        (Inr (s\<lparr>trace := trace s @
           [Call pname ver depth path, CycleReport (cycle_message (path @ [pname]))]\<rparr>))"
    and raise: "\<And>cfg w pname ver depth path s e.
      depth \<le> max_depth cfg \<Longrightarrow> pname \<notin> set path \<Longrightarrow>
      get_package_info cfg w pname ver = Inl e \<Longrightarrow>
      P cfg w pname ver depth path s [Call pname ver depth path, Fetch pname ver]
        (Inl (e, s\<lparr>trace := trace s @ [Call pname ver depth path, Fetch pname ver]\<rparr>))"
    and visit: "\<And>cfg w pname ver depth path s info s1 evs r.
      depth \<le> max_depth cfg \<Longrightarrow> pname \<notin> set path \<Longrightarrow>
      get_package_info cfg w pname ver = Inr info \<Longrightarrow>
      s1 = s\<lparr>trace := trace s @ [Call pname ver depth path, Fetch pname ver],
             dependency_graph := AList.update pname (dependencies_of info) (dependency_graph s)\<rparr> \<Longrightarrow>
      trace (state_of r) = trace s1 @ evs \<Longrightarrow>
      Q cfg w (dependencies_of info) depth (path @ [pname]) s1 evs r \<Longrightarrow>
      P cfg w pname ver depth path s
        ([Call pname ver depth path, Fetch pname ver] @ evs) r"
    and nil: "\<And>cfg w depth cp s. Q cfg w [] depth cp s [] (Inr s)"
    and skip: "\<And>cfg w dep_name dep_version rest depth cp s evs r.
      dep_name \<in> set (keys (dependency_graph s)) \<Longrightarrow>
      trace (state_of r) = trace s @ evs \<Longrightarrow>
      Q cfg w rest depth cp s evs r \<Longrightarrow>
      Q cfg w ((dep_name, dep_version) # rest) depth cp s evs r"
    and descend_raise: "\<And>cfg w dep_name dep_version rest depth cp s evs x.
      dep_name \<notin> set (keys (dependency_graph s)) \<Longrightarrow>
      trace (snd x) = trace s @ evs \<Longrightarrow>
      P cfg w dep_name dep_version (depth + 1) cp s evs (Inl x) \<Longrightarrow>
      Q cfg w ((dep_name, dep_version) # rest) depth cp s evs (Inl x)"
    and descend_return: "\<And>cfg w dep_name dep_version rest depth cp s evs1 s1 evs2 r.
      dep_name \<notin> set (keys (dependency_graph s)) \<Longrightarrow>
      trace s1 = trace s @ evs1 \<Longrightarrow>
      P cfg w dep_name dep_version (depth + 1) cp s evs1 (Inr s1) \<Longrightarrow>
      trace (state_of r) = trace s1 @ evs2 \<Longrightarrow>
      Q cfg w rest depth cp s1 evs2 r \<Longrightarrow>
      Q cfg w ((dep_name, dep_version) # rest) depth cp s (evs1 @ evs2) r"
  shows "trace (state_of (build_dependency_graph cfg w pname ver depth path s)) =
           trace s @ new_events s (build_dependency_graph cfg w pname ver depth path s)
         \<and> P cfg w pname ver depth path s
             (new_events s (build_dependency_graph cfg w pname ver depth path s))
             (build_dependency_graph cfg w pname ver depth path s)"
    and "trace (state_of (for_deps cfg w ds depth cp s)) =
           trace s @ new_events s (for_deps cfg w ds depth cp s)
         \<and> Q cfg w ds depth cp s (new_events s (for_deps cfg w ds depth cp s))
             (for_deps cfg w ds depth cp s)"
proof (induction cfg w pname ver depth path s and cfg w ds depth cp s
       rule: build_dependency_graph_for_deps.induct)
  case (1 cfg w pname ver depth path s0)
  let ?c = "Call pname ver depth path"
  show ?case
  proof (cases "max_depth cfg < depth")
    case True
    then show ?thesis using exceeded[OF True, of w pname ver path s0]
      by (simp add: build_depth_exceeded new_events_def)
  next
    case False
    then have nd: "depth \<le> max_depth cfg" by simp
    show ?thesis
    proof (cases "pname \<in> set path")
      case True
      with nd cycle[OF nd True, of w ver s0] show ?thesis
        by (simp add: build_cycle new_events_def)
    next
      case np: False
      show ?thesis
      proof (cases "get_package_info cfg w pname ver")
        case (Inl e)
        with nd np raise[OF nd np Inl, of s0] show ?thesis
          by (simp add: build_raise new_events_def)
      next
        case (Inr info)
        let ?s1 = "s0\<lparr>trace := trace s0 @ [?c, Fetch pname ver],
             dependency_graph := AList.update pname (dependencies_of info) (dependency_graph s0)\<rparr>"
        let ?r = "for_deps cfg w (dependencies_of info) depth (path @ [pname]) ?s1"
        have gd: "get_direct_dependencies cfg w pname ver (s0\<lparr>trace := trace s0 @ [?c]\<rparr>)
           = Inr (dependencies_of info, s0\<lparr>trace := trace s0 @ [?c, Fetch pname ver]\<rparr>)"
          using Inr by (simp add: get_direct_dependencies_def)
        have ih: "trace (state_of ?r) = trace ?s1 @ new_events ?s1 ?r
           \<and> Q cfg w (dependencies_of info) depth (path @ [pname]) ?s1 (new_events ?s1 ?r) ?r"
          using "1.IH"[OF refl False np gd refl] by simp
        have b: "build_dependency_graph cfg w pname ver depth path s0 = ?r"
          using nd np Inr by (simp add: build_visit)
        have tr: "trace (state_of ?r) = trace s0 @ ([?c, Fetch pname ver] @ new_events ?s1 ?r)"
          using ih by simp
        have ne: "new_events s0 ?r = [?c, Fetch pname ver] @ new_events ?s1 ?r"
          unfolding new_events_def[of s0] tr by simp
        from visit[OF nd np Inr refl conjunct1[OF ih] conjunct2[OF ih]] tr ne b
        show ?thesis by simp
      qed
    qed
  qed
next
  case (2 cfg w depth current_path s)
  show ?case using nil[of cfg w depth current_path s] by (simp add: new_events_def)
next
  case (3 cfg w dep_name dep_version rest depth cp s)
  show ?case
  proof (cases "dep_name \<in> set (keys (dependency_graph s))")
    case True
    with 3(3) skip[OF True, of "for_deps cfg w rest depth cp s" _ cfg w rest depth cp dep_version]
    show ?thesis by simp
  next
    case False
    let ?b = "build_dependency_graph cfg w dep_name dep_version (depth + 1) cp s"
    note ihb = 3(1)[OF False]
    show ?thesis
    proof (cases ?b)
      case (Inl x)
      have tx: "trace (snd x) = trace s @ new_events s (Inl x)"
        using ihb Inl by (cases x) simp
      from descend_raise[OF False tx, of cfg w dep_version depth cp rest] ihb Inl False
      show ?thesis by simp
    next
      case (Inr s1)
      let ?r = "for_deps cfg w rest depth cp s1"
      note ihf = 3(2)[OF False Inr]
      have t1: "trace s1 = trace s @ new_events s ?b" using ihb Inr by simp
      have tr: "trace (state_of ?r) = trace s @ (new_events s ?b @ new_events s1 ?r)"
        using ihf t1 by simp
      have ne: "new_events s ?r = new_events s ?b @ new_events s1 ?r"
        unfolding new_events_def[of s ?r] tr by simp
      have p: "P cfg w dep_name dep_version (depth + 1) cp s (new_events s ?b) (Inr s1)"
        using ihb Inr by simp
      from descend_return[OF False t1 p conjunct1[OF ihf] conjunct2[OF ihf]] tr ne False Inr
      show ?thesis by simp
    qed
  qed
qed


section \<open>Facts about traces\<close>

text \<open>
  The recursion is well founded at every argument. Then four invariants of the traversal,
  each by the induction rule above: the names entered and fetched are fresh; the depth and
  the path of every call; no cycle report when the path lies inside the keys of the graph;
  and a raising traversal stops at the failing fetch.
\<close>

lemma traversal_dom:
  "build_dependency_graph_for_deps_dom (Inl (cfg, w, pname, ver, depth, path, s))"
  "build_dependency_graph_for_deps_dom (Inr (cfg, w, ds, depth, cp, s))"
  by (induction cfg w pname ver depth path s and cfg w ds depth cp s
       rule: build_dependency_graph_for_deps.induct)
     (auto intro: build_dependency_graph_for_deps.domintros)

lemma fetched_names_append: "fetched_names (a @ b) = fetched_names a @ fetched_names b"
  by (induction a rule: fetched_names.induct) auto

lemma cycle_reports_append: "cycle_reports (a @ b) = cycle_reports a @ cycle_reports b"
  by (induction a rule: cycle_reports.induct) auto

lemma fresh_append: "fresh K (a @ b) = (fresh K a \<and> fresh (K @ fetched_names a) b)"
  by (induction K a rule: fresh.induct) auto

lemma fresh_distinct:
  "fresh K evs \<Longrightarrow> distinct (fetched_names evs) \<and> set (fetched_names evs) \<inter> set K = {}"
  by (induction K evs rule: fresh.induct) auto

lemma fresh_traversal:
  "pname \<notin> set (keys (dependency_graph s)) \<longrightarrow>
     fresh (keys (dependency_graph s)) (new_events s (build_dependency_graph cfg w pname ver depth path s))
     \<and> (\<exists>tl. keys (dependency_graph s) @ fetched_names (new_events s (build_dependency_graph cfg w pname ver depth path s))
             = keys (dependency_graph (state_of (build_dependency_graph cfg w pname ver depth path s))) @ tl
           \<and> (returned (build_dependency_graph cfg w pname ver depth path s) \<longrightarrow> tl = []))"
  "fresh (keys (dependency_graph s)) (new_events s (for_deps cfg w ds depth cp s))
     \<and> (\<exists>tl. keys (dependency_graph s) @ fetched_names (new_events s (for_deps cfg w ds depth cp s))
             = keys (dependency_graph (state_of (for_deps cfg w ds depth cp s))) @ tl
           \<and> (returned (for_deps cfg w ds depth cp s) \<longrightarrow> tl = []))"
proof -
  let ?R = "\<lambda>s evs r. fresh (keys (dependency_graph s)) evs
     \<and> (\<exists>tl. keys (dependency_graph s) @ fetched_names evs = keys (dependency_graph (state_of r)) @ tl
           \<and> (returned r \<longrightarrow> tl = []))"
  let ?P = "\<lambda>(cfg::config) (w::world) pname (ver::string) (depth::int) (path::string list) s evs r.
     pname \<notin> set (keys (dependency_graph s)) \<longrightarrow> ?R s evs r"
  let ?Q = "\<lambda>(cfg::config) (w::world) (ds::deps) (depth::int) (cp::string list) s evs r. ?R s evs r"
  have "(trace (state_of (build_dependency_graph cfg w pname ver depth path s)) =
           trace s @ new_events s (build_dependency_graph cfg w pname ver depth path s)
         \<and> ?P cfg w pname ver depth path s
             (new_events s (build_dependency_graph cfg w pname ver depth path s))
             (build_dependency_graph cfg w pname ver depth path s))"
   and "(trace (state_of (for_deps cfg w ds depth cp s)) =
           trace s @ new_events s (for_deps cfg w ds depth cp s)
         \<and> ?Q cfg w ds depth cp s (new_events s (for_deps cfg w ds depth cp s))
             (for_deps cfg w ds depth cp s))"
  proof (induction rule: traversal_induct[where P = ?P and Q = ?Q])
    case (exceeded cfg w pname ver depth path s)
    then show ?case by simp
  next
    case (cycle cfg w pname ver depth path s)
    then show ?case by simp
  next
    case (raise cfg w pname ver depth path s e)
    then show ?case by simp
  next
    case (visit cfg w pname ver depth path s info s1 evs r)
    then show ?case by (auto simp: keys_update_new)
  next
    case (nil cfg w depth cp s)
    then show ?case by simp
  next
    case (skip cfg w dep_name dep_version rest depth cp s evs r)
    then show ?case by simp
  next
    case (descend_raise cfg w dep_name dep_version rest depth cp s evs x)
    then show ?case by simp
  next
    case (descend_return cfg w dep_name dep_version rest depth cp s evs1 s1 evs2 r)
    from descend_return(1,3) have f1: "fresh (keys (dependency_graph s)) evs1"
      and k1: "keys (dependency_graph s1) = keys (dependency_graph s) @ fetched_names evs1"
      by auto
    from descend_return(5) obtain tl where f2: "fresh (keys (dependency_graph s1)) evs2"
      and k2: "keys (dependency_graph s1) @ fetched_names evs2 = keys (dependency_graph (state_of r)) @ tl"
      and tl: "returned r \<longrightarrow> tl = []"
      by auto
    have "fresh (keys (dependency_graph s)) (evs1 @ evs2)"
      using f1 f2 k1 by (simp add: fresh_append)
    moreover have "keys (dependency_graph s) @ fetched_names (evs1 @ evs2)
        = keys (dependency_graph (state_of r)) @ tl"
      using k1 k2 by (simp add: fetched_names_append)
    ultimately show ?case using tl by blast
  qed
  then show
  "pname \<notin> set (keys (dependency_graph s)) \<longrightarrow>
     fresh (keys (dependency_graph s)) (new_events s (build_dependency_graph cfg w pname ver depth path s))
     \<and> (\<exists>tl. keys (dependency_graph s) @ fetched_names (new_events s (build_dependency_graph cfg w pname ver depth path s))
             = keys (dependency_graph (state_of (build_dependency_graph cfg w pname ver depth path s))) @ tl
           \<and> (returned (build_dependency_graph cfg w pname ver depth path s) \<longrightarrow> tl = []))"
  "fresh (keys (dependency_graph s)) (new_events s (for_deps cfg w ds depth cp s))
     \<and> (\<exists>tl. keys (dependency_graph s) @ fetched_names (new_events s (for_deps cfg w ds depth cp s))
             = keys (dependency_graph (state_of (for_deps cfg w ds depth cp s))) @ tl
           \<and> (returned (for_deps cfg w ds depth cp s) \<longrightarrow> tl = []))"
    by blast+
qed


lemma trace_new_events:
  "trace (state_of (build_dependency_graph cfg w pname ver depth path s)) =
     trace s @ new_events s (build_dependency_graph cfg w pname ver depth path s)"
  "trace (state_of (for_deps cfg w ds depth cp s)) =
     trace s @ new_events s (for_deps cfg w ds depth cp s)"
  using traversal_induct[where P = "\<lambda>_ _ _ _ _ _ _ _ _. True" and Q = "\<lambda>_ _ _ _ _ _ _ _. True"]
  by simp_all

lemma take_prefix_shorter:
  "take (Suc (length cp)) p = cp @ [x] \<Longrightarrow> take (length cp) p = cp"
proof -
  assume a: "take (Suc (length cp)) p = cp @ [x]"
  have "take (length cp) p = take (length cp) (take (Suc (length cp)) p)" by simp
  also have "\<dots> = cp" unfolding a by simp
  finally show ?thesis .
qed

lemma calls_traversal:
  "\<exists>evs'. new_events s (build_dependency_graph cfg w pname ver depth path s) = Call pname ver depth path # evs'
     \<and> (\<forall>n v d p. Call n v d p \<in> set evs' \<longrightarrow>
           depth + 1 \<le> d \<and> d \<le> max_depth cfg + 1 \<and> take (Suc (length path)) p = path @ [pname]
           \<and> int (length p) = int (length path) + (d - depth))"
  "\<forall>n v d p. Call n v d p \<in> set (new_events s (for_deps cfg w ds depth cp s)) \<longrightarrow>
           depth + 1 \<le> d \<and> (depth \<le> max_depth cfg \<longrightarrow> d \<le> max_depth cfg + 1) \<and> take (length cp) p = cp
           \<and> int (length p) = int (length cp) + (d - depth - 1)"
proof -
  let ?P = "\<lambda>(cfg::config) (w::world) pname (ver::string) (depth::int) (path::string list) (s::analyzer) evs (r::(error \<times> analyzer) + analyzer).
     \<exists>evs'. evs = Call pname ver depth path # evs'
     \<and> (\<forall>n v d p. Call n v d p \<in> set evs' \<longrightarrow>
           depth + 1 \<le> d \<and> d \<le> max_depth cfg + 1 \<and> take (Suc (length path)) p = path @ [pname]
           \<and> int (length p) = int (length path) + (d - depth))"
  let ?Q = "\<lambda>(cfg::config) (w::world) (ds::deps) (depth::int) (cp::string list) (s::analyzer) evs (r::(error \<times> analyzer) + analyzer).
     \<forall>n v d p. Call n v d p \<in> set evs \<longrightarrow>
           depth + 1 \<le> d \<and> (depth \<le> max_depth cfg \<longrightarrow> d \<le> max_depth cfg + 1) \<and> take (length cp) p = cp
           \<and> int (length p) = int (length cp) + (d - depth - 1)"
  have "(trace (state_of (build_dependency_graph cfg w pname ver depth path s)) =
           trace s @ new_events s (build_dependency_graph cfg w pname ver depth path s)
         \<and> ?P cfg w pname ver depth path s
             (new_events s (build_dependency_graph cfg w pname ver depth path s))
             (build_dependency_graph cfg w pname ver depth path s))"
   and "(trace (state_of (for_deps cfg w ds depth cp s)) =
           trace s @ new_events s (for_deps cfg w ds depth cp s)
         \<and> ?Q cfg w ds depth cp s (new_events s (for_deps cfg w ds depth cp s))
             (for_deps cfg w ds depth cp s))"
  proof (induction rule: traversal_induct[where P = ?P and Q = ?Q])
    case (exceeded cfg w pname ver depth path s)
    then show ?case by simp
  next
    case (cycle cfg w pname ver depth path s)
    then show ?case by simp
  next
    case (raise cfg w pname ver depth path s e)
    then show ?case by simp
  next
    case (visit cfg w pname ver depth path s info s1 evs r)
    then show ?case by auto
  next
    case (nil cfg w depth cp s)
    then show ?case by simp
  next
    case (skip cfg w dep_name dep_version rest depth cp s evs r)
    then show ?case by simp
  next
    case (descend_raise cfg w dep_name dep_version rest depth cp s evs x)
    from descend_raise(3) obtain evs' where e1: "evs = Call dep_name dep_version (depth + 1) cp # evs'"
      and c1: "\<forall>n v d p. Call n v d p \<in> set evs' \<longrightarrow>
           depth + 1 + 1 \<le> d \<and> d \<le> max_depth cfg + 1 \<and> take (Suc (length cp)) p = cp @ [dep_name]
           \<and> int (length p) = int (length cp) + (d - (depth + 1))"
      by blast
    show ?case
    proof (intro allI impI)
      fix n v d p
      assume m: "Call n v d p \<in> set evs"
      show "depth + 1 \<le> d \<and> (depth \<le> max_depth cfg \<longrightarrow> d \<le> max_depth cfg + 1) \<and> take (length cp) p = cp
           \<and> int (length p) = int (length cp) + (d - depth - 1)"
      proof (cases "Call n v d p \<in> set evs'")
        case True
        with c1 have h: "depth + 1 + 1 \<le> d" "d \<le> max_depth cfg + 1"
          "take (Suc (length cp)) p = cp @ [dep_name]"
          "int (length p) = int (length cp) + (d - (depth + 1))"
          by blast+
        from h(3) have "take (length cp) p = cp" by (rule take_prefix_shorter)
        with h show ?thesis by simp
      next
        case False
        with m e1 show ?thesis by simp
      qed
    qed
  next
    case (descend_return cfg w dep_name dep_version rest depth cp s evs1 s1 evs2 r)
    from descend_return(3) obtain evs' where e1: "evs1 = Call dep_name dep_version (depth + 1) cp # evs'"
      and c1: "\<forall>n v d p. Call n v d p \<in> set evs' \<longrightarrow>
           depth + 1 + 1 \<le> d \<and> d \<le> max_depth cfg + 1 \<and> take (Suc (length cp)) p = cp @ [dep_name]
           \<and> int (length p) = int (length cp) + (d - (depth + 1))"
      by blast
    show ?case
    proof (intro allI impI)
      fix n v d p
      assume m: "Call n v d p \<in> set (evs1 @ evs2)"
      show "depth + 1 \<le> d \<and> (depth \<le> max_depth cfg \<longrightarrow> d \<le> max_depth cfg + 1) \<and> take (length cp) p = cp
           \<and> int (length p) = int (length cp) + (d - depth - 1)"
      proof (cases "Call n v d p \<in> set evs2")
        case True
        with descend_return(5) show ?thesis by blast
      next
        case n2: False
        show ?thesis
        proof (cases "Call n v d p \<in> set evs'")
          case True
          with c1 have h: "depth + 1 + 1 \<le> d" "d \<le> max_depth cfg + 1"
            "take (Suc (length cp)) p = cp @ [dep_name]"
            "int (length p) = int (length cp) + (d - (depth + 1))"
            by blast+
          from h(3) have "take (length cp) p = cp" by (rule take_prefix_shorter)
          with h show ?thesis by simp
        next
          case False
          with m n2 e1 show ?thesis by simp
        qed
      qed
    qed
  qed
  then show
  "\<exists>evs'. new_events s (build_dependency_graph cfg w pname ver depth path s) = Call pname ver depth path # evs'
     \<and> (\<forall>n v d p. Call n v d p \<in> set evs' \<longrightarrow>
           depth + 1 \<le> d \<and> d \<le> max_depth cfg + 1 \<and> take (Suc (length path)) p = path @ [pname]
           \<and> int (length p) = int (length path) + (d - depth))"
  "\<forall>n v d p. Call n v d p \<in> set (new_events s (for_deps cfg w ds depth cp s)) \<longrightarrow>
           depth + 1 \<le> d \<and> (depth \<le> max_depth cfg \<longrightarrow> d \<le> max_depth cfg + 1) \<and> take (length cp) p = cp
           \<and> int (length p) = int (length cp) + (d - depth - 1)"
    by blast+
qed

lemma no_cycle_traversal:
  "set path \<subseteq> set (keys (dependency_graph s)) \<and> pname \<notin> set (keys (dependency_graph s)) \<longrightarrow>
     cycle_reports (new_events s (build_dependency_graph cfg w pname ver depth path s)) = []
     \<and> set (keys (dependency_graph s))
         \<subseteq> set (keys (dependency_graph (state_of (build_dependency_graph cfg w pname ver depth path s))))"
  "set cp \<subseteq> set (keys (dependency_graph s)) \<longrightarrow>
     cycle_reports (new_events s (for_deps cfg w ds depth cp s)) = []
     \<and> set (keys (dependency_graph s))
         \<subseteq> set (keys (dependency_graph (state_of (for_deps cfg w ds depth cp s))))"
proof -
  let ?R = "\<lambda>(s::analyzer) evs (r::(error \<times> analyzer) + analyzer). cycle_reports evs = []
     \<and> set (keys (dependency_graph s)) \<subseteq> set (keys (dependency_graph (state_of r)))"
  let ?P = "\<lambda>(cfg::config) (w::world) pname (ver::string) (depth::int) (path::string list) s evs r.
     set path \<subseteq> set (keys (dependency_graph s)) \<and> pname \<notin> set (keys (dependency_graph s)) \<longrightarrow> ?R s evs r"
  let ?Q = "\<lambda>(cfg::config) (w::world) (ds::deps) (depth::int) (cp::string list) s evs r.
     set cp \<subseteq> set (keys (dependency_graph s)) \<longrightarrow> ?R s evs r"
  have "(trace (state_of (build_dependency_graph cfg w pname ver depth path s)) =
           trace s @ new_events s (build_dependency_graph cfg w pname ver depth path s)
         \<and> ?P cfg w pname ver depth path s
             (new_events s (build_dependency_graph cfg w pname ver depth path s))
             (build_dependency_graph cfg w pname ver depth path s))"
   and "(trace (state_of (for_deps cfg w ds depth cp s)) =
           trace s @ new_events s (for_deps cfg w ds depth cp s)
         \<and> ?Q cfg w ds depth cp s (new_events s (for_deps cfg w ds depth cp s))
             (for_deps cfg w ds depth cp s))"
  proof (induction rule: traversal_induct[where P = ?P and Q = ?Q])
    case (exceeded cfg w pname ver depth path s)
    then show ?case by simp
  next
    case (cycle cfg w pname ver depth path s)
    then show ?case by auto
  next
    case (raise cfg w pname ver depth path s e)
    then show ?case by simp
  next
    case (visit cfg w pname ver depth path s info s1 evs r)
    show ?case
    proof (intro impI)
      assume a: "set path \<subseteq> set (keys (dependency_graph s)) \<and> pname \<notin> set (keys (dependency_graph s))"
      have k1: "keys (dependency_graph s1) = keys (dependency_graph s) @ [pname]"
        using a visit(4) by (simp add: keys_update_new)
      then have "set (path @ [pname]) \<subseteq> set (keys (dependency_graph s1))" using a by auto
      with visit(6) have "?R s1 evs r" by blast
      then show "?R s ([Call pname ver depth path, Fetch pname ver] @ evs) r"
        using k1 by auto
    qed
  next
    case (nil cfg w depth cp s)
    then show ?case by simp
  next
    case (skip cfg w dep_name dep_version rest depth cp s evs r)
    then show ?case by simp
  next
    case (descend_raise cfg w dep_name dep_version rest depth cp s evs x)
    then show ?case by simp
  next
    case (descend_return cfg w dep_name dep_version rest depth cp s evs1 s1 evs2 r)
    show ?case
    proof (intro impI)
      assume a: "set cp \<subseteq> set (keys (dependency_graph s))"
      with descend_return(1,3) have r1: "cycle_reports evs1 = []"
        "set (keys (dependency_graph s)) \<subseteq> set (keys (dependency_graph s1))"
        by auto
      with a have "set cp \<subseteq> set (keys (dependency_graph s1))" by blast
      with descend_return(5) have "?R s1 evs2 r" by blast
      with r1 show "?R s (evs1 @ evs2) r" by (auto simp: cycle_reports_append)
    qed
  qed
  then show
  "set path \<subseteq> set (keys (dependency_graph s)) \<and> pname \<notin> set (keys (dependency_graph s)) \<longrightarrow>
     cycle_reports (new_events s (build_dependency_graph cfg w pname ver depth path s)) = []
     \<and> set (keys (dependency_graph s))
         \<subseteq> set (keys (dependency_graph (state_of (build_dependency_graph cfg w pname ver depth path s))))"
  "set cp \<subseteq> set (keys (dependency_graph s)) \<longrightarrow>
     cycle_reports (new_events s (for_deps cfg w ds depth cp s)) = []
     \<and> set (keys (dependency_graph s))
         \<subseteq> set (keys (dependency_graph (state_of (for_deps cfg w ds depth cp s))))"
    by blast+
qed

lemma fetches_succeed_append:
  "fetches_succeed cfg w (a @ b) = (fetches_succeed cfg w a \<and> fetches_succeed cfg w b)"
  by (induction cfg w a rule: fetches_succeed.induct) (auto split: sum.splits)

lemma errors_traversal:
  "case build_dependency_graph cfg w pname ver depth path s of
     Inr s' \<Rightarrow> fetches_succeed cfg w (new_events s (build_dependency_graph cfg w pname ver depth path s))
   | Inl (e, s') \<Rightarrow> (\<exists>pre n v.
        new_events s (build_dependency_graph cfg w pname ver depth path s) = pre @ [Fetch n v]
        \<and> get_package_info cfg w n v = Inl e \<and> fetches_succeed cfg w pre)"
  "case for_deps cfg w ds depth cp s of
     Inr s' \<Rightarrow> fetches_succeed cfg w (new_events s (for_deps cfg w ds depth cp s))
   | Inl (e, s') \<Rightarrow> (\<exists>pre n v.
        new_events s (for_deps cfg w ds depth cp s) = pre @ [Fetch n v]
        \<and> get_package_info cfg w n v = Inl e \<and> fetches_succeed cfg w pre)"
proof -
  let ?R = "\<lambda>(cfg::config) (w::world) evs (r::(error \<times> analyzer) + analyzer).
     case r of Inr s' \<Rightarrow> fetches_succeed cfg w evs
     | Inl (e, s') \<Rightarrow> (\<exists>pre n v. evs = pre @ [Fetch n v]
        \<and> get_package_info cfg w n v = Inl e \<and> fetches_succeed cfg w pre)"
  let ?P = "\<lambda>(cfg::config) (w::world) (pname::string) (ver::string) (depth::int) (path::string list) (s::analyzer) evs r.
     ?R cfg w evs r"
  let ?Q = "\<lambda>(cfg::config) (w::world) (ds::deps) (depth::int) (cp::string list) (s::analyzer) evs r.
     ?R cfg w evs r"
  have "(trace (state_of (build_dependency_graph cfg w pname ver depth path s)) =
           trace s @ new_events s (build_dependency_graph cfg w pname ver depth path s)
         \<and> ?P cfg w pname ver depth path s
             (new_events s (build_dependency_graph cfg w pname ver depth path s))
             (build_dependency_graph cfg w pname ver depth path s))"
   and "(trace (state_of (for_deps cfg w ds depth cp s)) =
           trace s @ new_events s (for_deps cfg w ds depth cp s)
         \<and> ?Q cfg w ds depth cp s (new_events s (for_deps cfg w ds depth cp s))
             (for_deps cfg w ds depth cp s))"
  proof (induction rule: traversal_induct[where P = ?P and Q = ?Q])
    case (exceeded cfg w pname ver depth path s)
    then show ?case by (simp add: fetches_succeed_append)
  next
    case (cycle cfg w pname ver depth path s)
    then show ?case by (simp add: fetches_succeed_append)
  next
    case (raise cfg w pname ver depth path s e)
    have "[Call pname ver depth path, Fetch pname ver] = [Call pname ver depth path] @ [Fetch pname ver]"
      by simp
    with raise(3) show ?case
      by (auto simp: fetches_succeed_append intro!: exI[of _ "[Call pname ver depth path]"])
  next
    case (visit cfg w pname ver depth path s info s1 evs r)
    show ?case
    proof (cases r)
      case (Inr s')
      with visit(3,6) show ?thesis by (simp add: fetches_succeed_append)
    next
      case (Inl x)
      obtain e s' where x: "x = (e, s')" by (cases x)
      with Inl visit(6) obtain pre n v where p: "evs = pre @ [Fetch n v]"
        "get_package_info cfg w n v = Inl e" "fetches_succeed cfg w pre"
        by auto
      have "[Call pname ver depth path, Fetch pname ver] @ evs
          = ([Call pname ver depth path, Fetch pname ver] @ pre) @ [Fetch n v]"
        using p(1) by simp
      moreover have "fetches_succeed cfg w ([Call pname ver depth path, Fetch pname ver] @ pre)"
        using p(3) visit(3) by (simp add: fetches_succeed_append)
      ultimately show ?thesis using Inl x p(2) by auto
    qed
  next
    case (nil cfg w depth cp s)
    then show ?case by (simp add: fetches_succeed_append)
  next
    case (skip cfg w dep_name dep_version rest depth cp s evs r)
    then show ?case by simp
  next
    case (descend_raise cfg w dep_name dep_version rest depth cp s evs x)
    then show ?case by simp
  next
    case (descend_return cfg w dep_name dep_version rest depth cp s evs1 s1 evs2 r)
    from descend_return(3) have f1: "fetches_succeed cfg w evs1" by simp
    show ?case
    proof (cases r)
      case (Inr s')
      with descend_return(5) f1 show ?thesis by (simp add: fetches_succeed_append)
    next
      case (Inl x)
      obtain e s' where x: "x = (e, s')" by (cases x)
      with Inl descend_return(5) obtain pre n v where p: "evs2 = pre @ [Fetch n v]"
        "get_package_info cfg w n v = Inl e" "fetches_succeed cfg w pre"
        by auto
      have "evs1 @ evs2 = (evs1 @ pre) @ [Fetch n v]" using p(1) by simp
      moreover have "fetches_succeed cfg w (evs1 @ pre)"
        using p(3) f1 by (simp add: fetches_succeed_append)
      ultimately show ?thesis using Inl x p(2) by auto
    qed
  qed
  then show
  "case build_dependency_graph cfg w pname ver depth path s of
     Inr s' \<Rightarrow> fetches_succeed cfg w (new_events s (build_dependency_graph cfg w pname ver depth path s))
   | Inl (e, s') \<Rightarrow> (\<exists>pre n v.
        new_events s (build_dependency_graph cfg w pname ver depth path s) = pre @ [Fetch n v]
        \<and> get_package_info cfg w n v = Inl e \<and> fetches_succeed cfg w pre)"
  "case for_deps cfg w ds depth cp s of
     Inr s' \<Rightarrow> fetches_succeed cfg w (new_events s (for_deps cfg w ds depth cp s))
   | Inl (e, s') \<Rightarrow> (\<exists>pre n v.
        new_events s (for_deps cfg w ds depth cp s) = pre @ [Fetch n v]
        \<and> get_package_info cfg w n v = Inl e \<and> fetches_succeed cfg w pre)"
    by blast+
qed

section \<open>Helper facts for the claims\<close>

text \<open>
  The definitions that evaluate a scenario; the loop at the depth boundary, where every
  child is entered and cut; and the three outcomes of the resolution in live mode for an
  answer with status 200 and a \<open>versions\<close> mapping.
\<close>

lemmas scenario_defs = run_analysis_def test_config_def test_world_def live_config_def
  registry_world_def init_def get_direct_dependencies_def get_package_info_def dict_get_def
  keys_def dependencies_of_def build_dependency_graph.simps

lemma for_deps_cut:
  "max_depth cfg \<le> depth \<Longrightarrow>
   for_deps cfg w ds depth cp s =
     Inr (s\<lparr>trace := trace s @
            map (\<lambda>(d, v). Call d v (depth + 1) cp)
              (filter (\<lambda>(d, v). d \<notin> set (keys (dependency_graph s))) ds)\<rparr>)"
proof (induction ds arbitrary: s)
  case Nil
  then show ?case by simp
next
  case (Cons a ds)
  obtain d v where a: "a = (d, v)" by (cases a)
  from Cons.prems have lt: "max_depth cfg < depth + 1" by simp
  show ?case
    unfolding a using Cons.IH[OF Cons.prems] lt
    by (simp add: build_depth_exceeded)
qed

lemma count_list_distinct:
  "distinct xs \<Longrightarrow> x \<in> set xs \<Longrightarrow> count_list xs x = 1"
  by (induction xs) auto

lemma get_package_info_live:
  assumes "mode cfg \<noteq> ''test''"
    and "status_code (http_get w (repository_url cfg @ ''/'' @ pname)) = 200"
    and "versions (http_get w (repository_url cfg @ ''/'' @ pname)) = Some vs"
  shows "map_of vs ver = Some info \<Longrightarrow> get_package_info cfg w pname ver = Inr info"
    and "map_of vs ver = None \<Longrightarrow> vs = (k, info) # rest \<Longrightarrow> k \<noteq> [] \<Longrightarrow>
           get_package_info cfg w pname ver = Inr info"
    and "map_of vs ver = None \<Longrightarrow> vs = ([], info) # rest \<Longrightarrow>
           get_package_info cfg w pname ver = Inl (ValueError (resolution_message pname))"
  using assms by (simp_all add: get_package_info_def)

section \<open>Claims\<close>

subsection \<open>C1: no package is fetched twice\<close>

text \<open>
  Claim C1. In a run of \<open>build_dependency_graph\<close> that starts at a package that is not
  yet a key of the graph (as every run started by \<open>run_analysis\<close> does), every entry into
  the function and every invocation of the Package Info Source is for a name that is not a
  key at that moment. Hence the names fetched during the run are pairwise distinct and
  disjoint from the keys present at the start; when the run returns, the keys of the graph
  are the old keys followed by the fetched names in the order of their fetches; and every
  package recorded by the run was fetched exactly once, however many branches reach it.
\<close>

theorem fetch_at_most_once:
  assumes "pname \<notin> set (keys (dependency_graph s))"
  shows "(let r = build_dependency_graph cfg w pname ver depth path s;
              evs = new_events s r
          in trace (state_of r) = trace s @ evs
           \<and> fresh (keys (dependency_graph s)) evs
           \<and> distinct (fetched_names evs)
           \<and> set (fetched_names evs) \<inter> set (keys (dependency_graph s)) = {}
           \<and> (returned r \<longrightarrow>
                 keys (dependency_graph (state_of r)) = keys (dependency_graph s) @ fetched_names evs)
           \<and> (\<forall>p \<in> set (keys (dependency_graph (state_of r))).
                 p \<notin> set (keys (dependency_graph s)) \<longrightarrow> count_list (fetched_names evs) p = 1))"
proof -
  let ?r = "build_dependency_graph cfg w pname ver depth path s"
  let ?evs = "new_events s ?r"
  let ?K = "keys (dependency_graph s)"
  from fresh_traversal(1)[where pname = pname and s = s and cfg = cfg and w = w and ver = ver
      and depth = depth and path = path] assms
  obtain tl where fr: "fresh ?K ?evs"
    and k: "?K @ fetched_names ?evs = keys (dependency_graph (state_of ?r)) @ tl"
    and tl: "returned ?r \<longrightarrow> tl = []"
    by blast
  from fresh_distinct[OF fr] have d: "distinct (fetched_names ?evs)"
    and dj: "set (fetched_names ?evs) \<inter> set ?K = {}" by blast+
  have ret: "returned ?r \<longrightarrow> keys (dependency_graph (state_of ?r)) = ?K @ fetched_names ?evs"
    using k tl by simp
  have cnt: "\<forall>p \<in> set (keys (dependency_graph (state_of ?r))).
                 p \<notin> set ?K \<longrightarrow> count_list (fetched_names ?evs) p = 1"
  proof (intro ballI impI)
    fix p assume p: "p \<in> set (keys (dependency_graph (state_of ?r)))" and n: "p \<notin> set ?K"
    from p have "p \<in> set (keys (dependency_graph (state_of ?r)) @ tl)" by simp
    then have "p \<in> set (?K @ fetched_names ?evs)" using k by simp
    with n have "p \<in> set (fetched_names ?evs)" by simp
    with d show "count_list (fetched_names ?evs) p = 1" by (rule count_list_distinct)
  qed
  show ?thesis
    unfolding Let_def using trace_new_events(1)[where cfg = cfg and w = w and pname = pname and ver = ver
      and depth = depth and path = path and s = s] fr d dj ret cnt
    by blast
qed

text \<open>
  Witness for C1 on the diamond fixture: \<open>B\<close> is reachable from \<open>A\<close> and from \<open>C\<close> and
  is fetched once.
\<close>

theorem fetch_at_most_once_witness:
  "''A'' \<notin> set (keys (dependency_graph init))
   \<and> fetched_names (new_events init
        (build_dependency_graph (test_config ''A'' 5) (test_world diamond_fixture) ''A'' ''1.0'' 0 [] init))
       = [''A'', ''B'', ''C'']
   \<and> distinct (fetched_names (new_events init
        (build_dependency_graph (test_config ''A'' 5) (test_world diamond_fixture) ''A'' ''1.0'' 0 [] init)))
   \<and> count_list (fetched_names (new_events init
        (build_dependency_graph (test_config ''A'' 5) (test_world diamond_fixture) ''A'' ''1.0'' 0 [] init))) ''B'' = 1"
proof -
  let ?r = "build_dependency_graph (test_config ''A'' 5) (test_world diamond_fixture) ''A'' ''1.0'' 0 [] init"
  have h: "''A'' \<notin> set (keys (dependency_graph init))" by (simp add: init_def keys_def)
  have e: "fetched_names (new_events init ?r) = [''A'', ''B'', ''C'']"
    by (simp add: scenario_defs diamond_fixture_def new_events_def)
  have kb: "''B'' \<in> set (keys (dependency_graph (state_of ?r)))"
    by (simp add: scenario_defs diamond_fixture_def)
  have nb: "''B'' \<notin> set (keys (dependency_graph init))" by (simp add: init_def keys_def)
  from fetch_at_most_once[OF h, where cfg = "test_config ''A'' 5"
      and w = "test_world diamond_fixture" and ver = "''1.0''" and depth = 0 and path = "[]"]
  have d: "distinct (fetched_names (new_events init ?r))"
    and c: "\<forall>p \<in> set (keys (dependency_graph (state_of ?r))).
                 p \<notin> set (keys (dependency_graph init)) \<longrightarrow> count_list (fetched_names (new_events init ?r)) p = 1"
    unfolding Let_def by blast+
  from c kb nb have "count_list (fetched_names (new_events init ?r)) ''B'' = 1" by blast
  with h e d show ?thesis by blast
qed

subsection \<open>C2: the depth guard\<close>

text \<open>
  Claim C2. A call whose depth is strictly greater than \<open>max_depth\<close> returns at once: the
  graph is unchanged and the Package Info Source is not invoked (the only new event is
  the entry into the call). A call at depth exactly \<open>max_depth\<close> that passes the cycle guard
  still invokes the source; when the source answers, the node is recorded with the fetched
  dependencies, and each child that is not yet a key is entered at depth
  \<open>max_depth + 1\<close> and cut there, so nothing else is fetched or recorded; when the source
  raises, the call raises after that one fetch.
\<close>

theorem depth_guard:
  "(max_depth cfg < depth \<longrightarrow>
      build_dependency_graph cfg w pname ver depth path s =
        Inr (s\<lparr>trace := trace s @ [Call pname ver depth path]\<rparr>))
   \<and> (pname \<notin> set path \<and> get_package_info cfg w pname ver = Inr info \<longrightarrow>
      build_dependency_graph cfg w pname ver (max_depth cfg) path s =
        Inr (s\<lparr>dependency_graph := AList.update pname (dependencies_of info) (dependency_graph s),
               trace := trace s @ [Call pname ver (max_depth cfg) path, Fetch pname ver] @
                 map (\<lambda>(d, v). Call d v (max_depth cfg + 1) (path @ [pname]))
                   (filter (\<lambda>(d, v). d \<notin> set (keys
                      (AList.update pname (dependencies_of info) (dependency_graph s))))
                      (dependencies_of info))\<rparr>))
   \<and> (pname \<notin> set path \<and> get_package_info cfg w pname ver = Inl e \<longrightarrow>
      build_dependency_graph cfg w pname ver (max_depth cfg) path s =
        Inl (e, s\<lparr>trace := trace s @ [Call pname ver (max_depth cfg) path, Fetch pname ver]\<rparr>))"
  by (simp add: build_depth_exceeded build_visit build_raise for_deps_cut)

text \<open>
  Witness for C2 on the chain fixture with \<open>max_depth = 1\<close>: the call for \<open>C\<close> at depth 2
  is cut, the call for \<open>B\<close> at depth 1 is fetched and recorded.
\<close>

theorem depth_guard_witness:
  "max_depth (test_config ''A'' 1) < 2
   \<and> build_dependency_graph (test_config ''A'' 1) (test_world chain_fixture) ''C'' ''1.0'' 2 [''A'', ''B''] init =
        Inr (init\<lparr>trace := trace init @ [Call ''C'' ''1.0'' 2 [''A'', ''B'']]\<rparr>)
   \<and> ''B'' \<notin> set [''A'']
   \<and> get_package_info (test_config ''A'' 1) (test_world chain_fixture) ''B'' ''1.0''
        = Inr \<lparr>dependencies = Some [(''C'', ''1.0'')]\<rparr>
   \<and> build_dependency_graph (test_config ''A'' 1) (test_world chain_fixture) ''B'' ''1.0'' 1 [''A''] init =
        Inr \<lparr>dependency_graph = [(''B'', [(''C'', ''1.0'')])],
             trace = [Call ''B'' ''1.0'' 1 [''A''], Fetch ''B'' ''1.0'', Call ''C'' ''1.0'' 2 [''A'', ''B'']]\<rparr>"
proof -
  let ?cfg = "test_config ''A'' 1" and ?w = "test_world chain_fixture"
  have h1: "max_depth ?cfg < 2" by (simp add: test_config_def)
  have h2: "''B'' \<notin> set [''A'']" by simp
  have h3: "get_package_info ?cfg ?w ''B'' ''1.0'' = Inr \<lparr>dependencies = Some [(''C'', ''1.0'')]\<rparr>"
    by (simp add: scenario_defs chain_fixture_def)
  have m: "max_depth ?cfg = 1" by (simp add: test_config_def)
  from depth_guard[where cfg = ?cfg and depth = 2 and w = ?w and pname = "''C''" and ver = "''1.0''"
      and path = "[''A'', ''B'']" and s = init]
    h1 have a: "build_dependency_graph ?cfg ?w ''C'' ''1.0'' 2 [''A'', ''B''] init =
        Inr (init\<lparr>trace := trace init @ [Call ''C'' ''1.0'' 2 [''A'', ''B'']]\<rparr>)"
    by blast
  from depth_guard[where cfg = ?cfg and w = ?w and pname = "''B''" and ver = "''1.0''"
      and path = "[''A'']" and s = init and info = "\<lparr>dependencies = Some [(''C'', ''1.0'')]\<rparr>"]
    h2 h3 have b: "build_dependency_graph ?cfg ?w ''B'' ''1.0'' 1 [''A''] init =
        Inr \<lparr>dependency_graph = [(''B'', [(''C'', ''1.0'')])],
             trace = [Call ''B'' ''1.0'' 1 [''A''], Fetch ''B'' ''1.0'', Call ''C'' ''1.0'' 2 [''A'', ''B'']]\<rparr>"
    by (simp add: m init_def dependencies_of_def keys_def)
  from h1 a h2 h3 b show ?thesis by blast
qed

subsection \<open>C3: the depth boundary on a chain\<close>

text \<open>
  Claim C3, as stated, fails: with \<open>max_depth = 1\<close> the chain \<open>A, B, C, D\<close> does not
  record \<open>C\<close>; the keys of the final graph are not \<open>A, B, C\<close>.
\<close>

theorem chain_records_three_counterexample:
  "keys (dependency_graph (state_of (run_analysis (test_config ''A'' 1) (test_world chain_fixture))))
     \<noteq> [''A'', ''B'', ''C'']
   \<and> ''C'' \<notin> set (keys (dependency_graph
        (state_of (run_analysis (test_config ''A'' 1) (test_world chain_fixture)))))"
  by (simp add: scenario_defs chain_fixture_def)

text \<open>
  Claim C3, amended. With \<open>max_depth = 1\<close> the run from \<open>A\<close> over the chain records exactly
  \<open>A\<close> (depth 0) and \<open>B\<close> (depth 1); the call for \<open>C\<close> at depth 2 is cut by the depth
  guard, so neither \<open>C\<close> nor \<open>D\<close> is fetched or recorded.
\<close>

theorem chain_depth_one:
  "run_analysis (test_config ''A'' 1) (test_world chain_fixture) =
     Inr \<lparr>dependency_graph = [(''A'', [(''B'', ''1.0'')]), (''B'', [(''C'', ''1.0'')])],
          trace = [Call ''A'' ''1.0'' 0 [], Fetch ''A'' ''1.0'',
                   Call ''B'' ''1.0'' 1 [''A''], Fetch ''B'' ''1.0'',
                   Call ''C'' ''1.0'' 2 [''A'', ''B'']]\<rparr>"
  by (simp add: scenario_defs chain_fixture_def)

subsection \<open>C4: the cycle guard\<close>

text \<open>
  Claim C4 at a failing input. On the fixture where \<open>A\<close> depends on \<open>B\<close> and \<open>B\<close> on
  \<open>A\<close>, the run from \<open>A\<close> with \<open>max_depth = 5\<close> returns and records exactly \<open>A\<close> and
  \<open>B\<close>, but it reports no cycle: when the loop of \<open>B\<close> reaches \<open>A\<close>, \<open>A\<close> is already a
  key of the graph and is skipped before any call is made, so the cycle guard is never
  reached and the chain \<open>A -> B -> A\<close> is never printed.
\<close>

theorem cycle_never_reported:
  "run_analysis (test_config ''A'' 5) (test_world cycle_fixture) =
     Inr \<lparr>dependency_graph = [(''A'', [(''B'', ''1.0'')]), (''B'', [(''A'', ''1.0'')])],
          trace = [Call ''A'' ''1.0'' 0 [], Fetch ''A'' ''1.0'',
                   Call ''B'' ''1.0'' 1 [''A''], Fetch ''B'' ''1.0'']\<rparr>
   \<and> cycle_reports (trace (state_of (run_analysis (test_config ''A'' 5) (test_world cycle_fixture)))) = []
   \<and> CycleReport (cycle_message [''A'', ''B'', ''A''])
        \<notin> set (trace (state_of (run_analysis (test_config ''A'' 5) (test_world cycle_fixture))))"
  by (simp add: scenario_defs cycle_fixture_def)

text \<open>
  What the cycle guard does when it is reached. A call that passes the depth guard and
  whose name occurs in the path reports the path followed by the name, joined by \<open>->\<close>,
  and returns with the graph unchanged and without a fetch. Every direct child call of a
  call with path \<open>path\<close> and name \<open>pname\<close> receives exactly \<open>path @ [pname]\<close>, whatever
  its siblings did. A call made by hand for \<open>A\<close> with path \<open>A, B\<close> reports
  \<open>A -> B -> A\<close>; by \<open>no_cycle_traversal\<close> no run of \<open>run_analysis\<close> makes such a call.
\<close>

lemma cycle_guard_reached:
  "(depth \<le> max_depth cfg \<and> pname \<in> set path \<longrightarrow>
      build_dependency_graph cfg w pname ver depth path s =
        Inr (s\<lparr>trace := trace s @
               [Call pname ver depth path,
                CycleReport (cycle_prefix @ join '' -> '' (path @ [pname]))]\<rparr>))
   \<and> (\<forall>n v p. Call n v (depth + 1) p
          \<in> set (new_events s (build_dependency_graph cfg w pname ver depth path s))
        \<longrightarrow> p = path @ [pname])"
proof (intro conjI)
  show "depth \<le> max_depth cfg \<and> pname \<in> set path \<longrightarrow>
      build_dependency_graph cfg w pname ver depth path s =
        Inr (s\<lparr>trace := trace s @
               [Call pname ver depth path,
                CycleReport (cycle_prefix @ join '' -> '' (path @ [pname]))]\<rparr>)"
    by (simp add: build_cycle cycle_message_def)
next
  from calls_traversal(1)[where s = s and cfg = cfg and w = w and pname = pname and ver = ver
      and depth = depth and path = path]
  obtain evs' where e: "new_events s (build_dependency_graph cfg w pname ver depth path s)
        = Call pname ver depth path # evs'"
    and c: "\<forall>n v d p. Call n v d p \<in> set evs' \<longrightarrow>
           depth + 1 \<le> d \<and> d \<le> max_depth cfg + 1 \<and> take (Suc (length path)) p = path @ [pname]
           \<and> int (length p) = int (length path) + (d - depth)"
    by blast
  show "\<forall>n v p. Call n v (depth + 1) p
          \<in> set (new_events s (build_dependency_graph cfg w pname ver depth path s))
        \<longrightarrow> p = path @ [pname]"
  proof (intro allI impI)
    fix n v p
    assume "Call n v (depth + 1) p
          \<in> set (new_events s (build_dependency_graph cfg w pname ver depth path s))"
    with e have "Call n v (depth + 1) p \<in> set evs'" by simp
    with c have t: "take (Suc (length path)) p = path @ [pname]"
      and l: "int (length p) = int (length path) + (depth + 1 - depth)" by blast+
    from l have "length p = Suc (length path)" by simp
    with t show "p = path @ [pname]" by simp
  qed
qed

lemma cycle_guard_by_hand:
  "build_dependency_graph (test_config ''A'' 5) (test_world cycle_fixture) ''A'' ''1.0'' 2 [''A'', ''B''] init =
     Inr (init\<lparr>trace := trace init @
            [Call ''A'' ''1.0'' 2 [''A'', ''B''], CycleReport (cycle_prefix @ ''A -> B -> A'')]\<rparr>)"
proof -
  have h: "(2::int) \<le> max_depth (test_config ''A'' 5) \<and> ''A'' \<in> set [''A'', ''B'']"
    by (simp add: test_config_def)
  have j: "join '' -> '' ([''A'', ''B''] @ [''A'']) = ''A -> B -> A''" by simp
  from cycle_guard_reached[where depth = 2 and cfg = "test_config ''A'' 5" and pname = "''A''"
      and path = "[''A'', ''B'']" and w = "test_world cycle_fixture" and ver = "''1.0''" and s = init] h
  show ?thesis unfolding j by blast
qed

subsection \<open>C5: version resolution in live mode\<close>

text \<open>
  Claim C5 at a failing input. The registry answers with status 200 and a non-empty
  \<open>versions\<close> mapping whose first key is the empty string; the requested version
  \<open>1.0\<close> is not a key. The fallback takes the first key, tests it for truth, finds the
  empty string false, and the call raises instead of returning the first entry.
\<close>

theorem empty_first_version_raises:
  "get_package_info (live_config ''pkg'' 5) (registry_world empty_key_registry) ''pkg'' ''1.0''
     = Inl (ValueError (resolution_message ''pkg''))"
  by (simp add: scenario_defs empty_key_registry_def)

subsection \<open>C6: resolution errors are fatal\<close>

text \<open>
  Claim C6. In live mode, an answer with a status other than 200, or with status 200 and
  an empty (or absent) \<open>versions\<close> mapping, makes \<open>get_package_info\<close> raise a
  \<open>ValueError\<close> whose message is the fixed text followed by the package name. No call of the
  traversal catches an error of the source: a run that raises stops at the failing
  invocation, which is its last event, and raises that very error; a run that returns has
  met no failing invocation.
\<close>

theorem resolution_error_fatal:
  "(mode cfg \<noteq> ''test''
      \<and> (status_code (http_get w (repository_url cfg @ ''/'' @ pname)) \<noteq> 200
         \<or> versions (http_get w (repository_url cfg @ ''/'' @ pname)) = None
         \<or> versions (http_get w (repository_url cfg @ ''/'' @ pname)) = Some [])
      \<longrightarrow> get_package_info cfg w pname ver = Inl (ValueError (resolution_prefix @ pname)))
   \<and> (case run_analysis cfg w of
         Inr s' \<Rightarrow> fetches_succeed cfg w (trace s')
       | Inl (e, s') \<Rightarrow>
           (\<exists>pre n v. trace s' = pre @ [Fetch n v]
                \<and> get_package_info cfg w n v = Inl e \<and> fetches_succeed cfg w pre))"
proof (intro conjI)
  show "mode cfg \<noteq> ''test''
      \<and> (status_code (http_get w (repository_url cfg @ ''/'' @ pname)) \<noteq> 200
         \<or> versions (http_get w (repository_url cfg @ ''/'' @ pname)) = None
         \<or> versions (http_get w (repository_url cfg @ ''/'' @ pname)) = Some [])
      \<longrightarrow> get_package_info cfg w pname ver = Inl (ValueError (resolution_prefix @ pname))"
    by (auto simp: get_package_info_def resolution_message_def Let_def)
next
  let ?r = "build_dependency_graph cfg w (package_name cfg) (version cfg) 0 [] init"
  have ne: "new_events init ?r = trace (state_of ?r)"
    by (simp add: new_events_def init_def)
  from errors_traversal(1)[where cfg = cfg and w = w and pname = "package_name cfg"
      and ver = "version cfg" and depth = 0 and path = "[]" and s = init]
  show "case run_analysis cfg w of
         Inr s' \<Rightarrow> fetches_succeed cfg w (trace s')
       | Inl (e, s') \<Rightarrow>
           (\<exists>pre n v. trace s' = pre @ [Fetch n v]
                \<and> get_package_info cfg w n v = Inl e \<and> fetches_succeed cfg w pre)"
    unfolding run_analysis_def ne
    by (cases ?r) (auto split: prod.splits)
qed

text \<open>
  Witness for C6: in the failing registry \<open>B\<close> is unknown and \<open>E\<close> has no versions;
  the run from \<open>A\<close> raises at \<open>B\<close> and never reaches \<open>E\<close>.
\<close>

theorem resolution_error_fatal_witness:
  "mode (live_config ''A'' 5) \<noteq> ''test''
   \<and> status_code (http_get (registry_world failing_registry)
        (repository_url (live_config ''A'' 5) @ ''/'' @ ''B'')) \<noteq> 200
   \<and> get_package_info (live_config ''A'' 5) (registry_world failing_registry) ''B'' ''2.0''
        = Inl (ValueError (resolution_prefix @ ''B''))
   \<and> versions (http_get (registry_world failing_registry)
        (repository_url (live_config ''A'' 5) @ ''/'' @ ''E'')) = Some []
   \<and> get_package_info (live_config ''A'' 5) (registry_world failing_registry) ''E'' ''3.0''
        = Inl (ValueError (resolution_prefix @ ''E''))
   \<and> run_analysis (live_config ''A'' 5) (registry_world failing_registry)
        = Inl (ValueError (resolution_prefix @ ''B''),
               \<lparr>dependency_graph = [(''A'', [(''B'', ''2.0''), (''E'', ''3.0'')])],
                trace = [Call ''A'' ''1.0'' 0 [], Fetch ''A'' ''1.0'',
                         Call ''B'' ''2.0'' 1 [''A''], Fetch ''B'' ''2.0'']\<rparr>)"
proof -
  let ?cfg = "live_config ''A'' 5" and ?w = "registry_world failing_registry"
  have h1: "mode ?cfg \<noteq> ''test''" by (simp add: live_config_def)
  have h2: "status_code (http_get ?w (repository_url ?cfg @ ''/'' @ ''B'')) \<noteq> 200"
    by (simp add: live_config_def registry_world_def failing_registry_def dict_get_def)
  have h3: "versions (http_get ?w (repository_url ?cfg @ ''/'' @ ''E'')) = Some []"
    by (simp add: live_config_def registry_world_def failing_registry_def dict_get_def)
  from resolution_error_fatal[where cfg = ?cfg and w = ?w and pname = "''B''" and ver = "''2.0''"] h1 h2
  have a: "get_package_info ?cfg ?w ''B'' ''2.0'' = Inl (ValueError (resolution_prefix @ ''B''))"
    by blast
  from resolution_error_fatal[where cfg = ?cfg and w = ?w and pname = "''E''" and ver = "''3.0''"] h1 h3
  have b: "get_package_info ?cfg ?w ''E'' ''3.0'' = Inl (ValueError (resolution_prefix @ ''E''))"
    by blast
  have c: "run_analysis ?cfg ?w
        = Inl (ValueError (resolution_prefix @ ''B''),
               \<lparr>dependency_graph = [(''A'', [(''B'', ''2.0''), (''E'', ''3.0'')])],
                trace = [Call ''A'' ''1.0'' 0 [], Fetch ''A'' ''1.0'',
                         Call ''B'' ''2.0'' 1 [''A''], Fetch ''B'' ''2.0'']\<rparr>)"
    by (simp add: scenario_defs failing_registry_def resolution_message_def)
  from h1 h2 a h3 b c show ?thesis by blast
qed

subsection \<open>C7: a package missing from the fixture\<close>

text \<open>
  Claim C7. In test mode with the fixture file present, a package name that is not a key
  of the fixture gives the empty metadata record, hence no direct dependencies and no
  error; a call that visits such a node records it and returns after the one fetch,
  without entering any child call.
\<close>

theorem missing_test_package:
  assumes "mode cfg = ''test''"
    and "files w (repository_url cfg) = Some fx"
    and "pname \<notin> set (keys fx)"
  shows "get_package_info cfg w pname ver = Inr \<lparr>dependencies = None\<rparr>
     \<and> get_direct_dependencies cfg w pname ver s = Inr ([], s\<lparr>trace := trace s @ [Fetch pname ver]\<rparr>)
     \<and> (depth \<le> max_depth cfg \<and> pname \<notin> set path \<longrightarrow>
          build_dependency_graph cfg w pname ver depth path s =
            Inr (s\<lparr>dependency_graph := AList.update pname [] (dependency_graph s),
                   trace := trace s @ [Call pname ver depth path, Fetch pname ver]\<rparr>))"
proof -
  from assms(3) have "map_of fx pname = None"
    by (simp add: keys_def map_of_eq_None_iff)
  with assms(1,2) have g: "get_package_info cfg w pname ver = Inr \<lparr>dependencies = None\<rparr>"
    by (simp add: get_package_info_def dict_get_def)
  then show ?thesis
    by (simp add: get_direct_dependencies_def dependencies_of_def build_visit)
qed

text \<open>
  Witness for C7: the name \<open>Z\<close> is not in the chain fixture.
\<close>

theorem missing_test_package_witness:
  "mode (test_config ''A'' 1) = ''test''
   \<and> files (test_world chain_fixture) (repository_url (test_config ''A'' 1)) = Some chain_fixture
   \<and> ''Z'' \<notin> set (keys chain_fixture)
   \<and> (1::int) \<le> max_depth (test_config ''A'' 1) \<and> ''Z'' \<notin> set [''A'']
   \<and> get_package_info (test_config ''A'' 1) (test_world chain_fixture) ''Z'' ''1.0'' = Inr \<lparr>dependencies = None\<rparr>
   \<and> build_dependency_graph (test_config ''A'' 1) (test_world chain_fixture) ''Z'' ''1.0'' 1 [''A''] init =
        Inr \<lparr>dependency_graph = [(''Z'', [])],
             trace = [Call ''Z'' ''1.0'' 1 [''A''], Fetch ''Z'' ''1.0'']\<rparr>"
proof -
  let ?cfg = "test_config ''A'' 1" and ?w = "test_world chain_fixture"
  have h1: "mode ?cfg = ''test''" by (simp add: test_config_def)
  have h2: "files ?w (repository_url ?cfg) = Some chain_fixture"
    by (simp add: test_config_def test_world_def)
  have h3: "''Z'' \<notin> set (keys chain_fixture)" by (simp add: keys_def chain_fixture_def)
  have h4: "(1::int) \<le> max_depth ?cfg" by (simp add: test_config_def)
  have h5: "''Z'' \<notin> set [''A'']" by simp
  from missing_test_package[OF h1 h2 h3, where ver = "''1.0''" and s = init and depth = 1
      and path = "[''A'']"] h4 h5
  have "get_package_info ?cfg ?w ''Z'' ''1.0'' = Inr \<lparr>dependencies = None\<rparr>"
    and "build_dependency_graph ?cfg ?w ''Z'' ''1.0'' 1 [''A''] init =
        Inr \<lparr>dependency_graph = [(''Z'', [])],
             trace = [Call ''Z'' ''1.0'' 1 [''A''], Fetch ''Z'' ''1.0'']\<rparr>"
    by (simp_all add: init_def)
  with h1 h2 h3 h4 h5 show ?thesis by blast
qed

subsection \<open>C8: the end-to-end scenario\<close>

text \<open>
  Claim C8. On the diamond fixture, from root \<open>A\<close> at version \<open>1.0\<close> with
  \<open>max_depth = 5\<close>, the run returns the graph \<open>A: {B, C}\<close>, \<open>B: {}\<close>, \<open>C: {B}\<close> with its
  keys in the order \<open>A, B, C\<close>, and \<open>B\<close> is fetched exactly once.
\<close>

theorem e2e_diamond:
  "\<exists>s. run_analysis (test_config ''A'' 5) (test_world diamond_fixture) = Inr s
     \<and> dependency_graph s =
          [(''A'', [(''B'', ''1.0''), (''C'', ''1.0'')]), (''B'', []), (''C'', [(''B'', ''1.0'')])]
     \<and> keys (dependency_graph s) = [''A'', ''B'', ''C'']
     \<and> fetched_names (trace s) = [''A'', ''B'', ''C'']
     \<and> count_list (fetched_names (trace s)) ''B'' = 1"
  by (simp add: scenario_defs diamond_fixture_def)

subsection \<open>C9: termination\<close>

text \<open>
  Claim C9. For every configuration with \<open>max_depth\<close> not negative, every world, every
  package, every path and every state, the recursion started at depth 0 is well founded,
  and every call it makes has a depth between 0 and \<open>max_depth + 1\<close>, with a path exactly
  that much longer than the initial one. The bound does not come from the cycle guard: the
  measure of the termination proof is the distance of the depth from \<open>max_depth\<close>, it holds
  for every path, and in a run started by \<open>run_analysis\<close> the cycle guard never fires.
\<close>

theorem traversal_terminates:
  assumes "0 \<le> max_depth cfg"
  shows "build_dependency_graph_for_deps_dom (Inl (cfg, w, pname, ver, 0, path, s))
     \<and> (\<forall>n v d p. Call n v d p
            \<in> set (new_events s (build_dependency_graph cfg w pname ver 0 path s))
          \<longrightarrow> 0 \<le> d \<and> d \<le> max_depth cfg + 1 \<and> int (length p) = int (length path) + d)
     \<and> cycle_reports (trace (state_of (run_analysis cfg w))) = []"
proof (intro conjI)
  show "build_dependency_graph_for_deps_dom (Inl (cfg, w, pname, ver, 0, path, s))"
    by (rule traversal_dom(1))
next
  from calls_traversal(1)[where s = s and cfg = cfg and w = w and pname = pname and ver = ver
      and depth = 0 and path = path]
  obtain evs' where e: "new_events s (build_dependency_graph cfg w pname ver 0 path s)
        = Call pname ver 0 path # evs'"
    and c: "\<forall>n v d p. Call n v d p \<in> set evs' \<longrightarrow>
           0 + 1 \<le> d \<and> d \<le> max_depth cfg + 1 \<and> take (Suc (length path)) p = path @ [pname]
           \<and> int (length p) = int (length path) + (d - 0)"
    by blast
  show "\<forall>n v d p. Call n v d p
            \<in> set (new_events s (build_dependency_graph cfg w pname ver 0 path s))
          \<longrightarrow> 0 \<le> d \<and> d \<le> max_depth cfg + 1 \<and> int (length p) = int (length path) + d"
  proof (intro allI impI)
    fix n v d p
    assume m: "Call n v d p \<in> set (new_events s (build_dependency_graph cfg w pname ver 0 path s))"
    show "0 \<le> d \<and> d \<le> max_depth cfg + 1 \<and> int (length p) = int (length path) + d"
    proof (cases "Call n v d p \<in> set evs'")
      case True
      with c have "0 + 1 \<le> d" "d \<le> max_depth cfg + 1"
        "int (length p) = int (length path) + (d - 0)" by blast+
      then show ?thesis by simp
    next
      case False
      with m e have "d = 0" "p = path" by simp_all
      with assms show ?thesis by simp
    qed
  qed
next
  let ?r = "build_dependency_graph cfg w (package_name cfg) (version cfg) 0 [] init"
  have ne: "new_events init ?r = trace (state_of ?r)"
    by (simp add: new_events_def init_def)
  have "set [] \<subseteq> set (keys (dependency_graph init))
      \<and> package_name cfg \<notin> set (keys (dependency_graph init))"
    by (simp add: init_def keys_def)
  with no_cycle_traversal(1)[where path = "[]" and s = init and pname = "package_name cfg"
      and cfg = cfg and w = w and ver = "version cfg" and depth = 0]
  have "cycle_reports (new_events init ?r) = []" by blast
  then show "cycle_reports (trace (state_of (run_analysis cfg w))) = []"
    unfolding run_analysis_def ne .
qed

text \<open>
  Witness for C9 on the chain fixture with \<open>max_depth = 1\<close>: the deepest call is the
  one for \<open>C\<close> at depth 2.
\<close>

theorem traversal_terminates_witness:
  "0 \<le> max_depth (test_config ''A'' 1)
   \<and> build_dependency_graph_for_deps_dom
        (Inl (test_config ''A'' 1, test_world chain_fixture, ''A'', ''1.0'', 0, [], init))
   \<and> Call ''C'' ''1.0'' 2 [''A'', ''B'']
        \<in> set (new_events init
             (build_dependency_graph (test_config ''A'' 1) (test_world chain_fixture) ''A'' ''1.0'' 0 [] init))
   \<and> (2::int) \<le> max_depth (test_config ''A'' 1) + 1
   \<and> cycle_reports (trace (state_of (run_analysis (test_config ''A'' 1) (test_world chain_fixture)))) = []"
proof -
  let ?cfg = "test_config ''A'' 1" and ?w = "test_world chain_fixture"
  have h: "0 \<le> max_depth ?cfg" by (simp add: test_config_def)
  note t = traversal_terminates[OF h, where w = ?w and pname = "''A''" and ver = "''1.0''"
      and path = "[]" and s = init]
  have m: "Call ''C'' ''1.0'' 2 [''A'', ''B'']
        \<in> set (new_events init (build_dependency_graph ?cfg ?w ''A'' ''1.0'' 0 [] init))"
    by (simp add: scenario_defs chain_fixture_def new_events_def)
  from t m have b: "(2::int) \<le> max_depth ?cfg + 1" by blast
  from t have d: "build_dependency_graph_for_deps_dom (Inl (?cfg, ?w, ''A'', ''1.0'', 0, [], init))"
    and c: "cycle_reports (trace (state_of (run_analysis ?cfg ?w))) = []"
    by blast+
  from h d m b c show ?thesis by blast
qed

subsection \<open>C10: a missing package is still recorded\<close>

text \<open>
  Claim C10. In test mode with the fixture file present, a visited package that is not a
  key of the fixture is recorded in the graph with the empty dependency mapping; and when
  the root itself is missing from the fixture (and \<open>max_depth\<close> is not negative, as the
  configuration requires), the run returns the graph holding exactly the root, mapped to
  the empty mapping.
\<close>

theorem missing_package_recorded:
  assumes "mode cfg = ''test''"
    and "files w (repository_url cfg) = Some fx"
  shows "(pname \<notin> set (keys fx) \<and> depth \<le> max_depth cfg \<and> pname \<notin> set path \<longrightarrow>
            (\<exists>s'. build_dependency_graph cfg w pname ver depth path s = Inr s'
                 \<and> map_of (dependency_graph s') pname = Some []))
     \<and> (package_name cfg \<notin> set (keys fx) \<and> 0 \<le> max_depth cfg \<longrightarrow>
            (\<exists>s'. run_analysis cfg w = Inr s'
                 \<and> dependency_graph s' = [(package_name cfg, [])]))"
proof -
  have g: "\<And>n v. n \<notin> set (keys fx) \<Longrightarrow> get_package_info cfg w n v = Inr \<lparr>dependencies = None\<rparr>"
  proof -
    fix n :: string and v :: string
    assume "n \<notin> set (keys fx)"
    then have "map_of fx n = None" by (simp add: keys_def map_of_eq_None_iff)
    with assms show "get_package_info cfg w n v = Inr \<lparr>dependencies = None\<rparr>"
      by (simp add: get_package_info_def dict_get_def)
  qed
  show ?thesis
    by (auto simp: g build_visit dependencies_of_def run_analysis_def init_def update_conv')
qed

text \<open>
  Witness for C10: the root \<open>Z\<close> is not in the chain fixture.
\<close>

theorem missing_package_recorded_witness:
  "mode (test_config ''Z'' 5) = ''test''
   \<and> files (test_world chain_fixture) (repository_url (test_config ''Z'' 5)) = Some chain_fixture
   \<and> package_name (test_config ''Z'' 5) \<notin> set (keys chain_fixture)
   \<and> 0 \<le> max_depth (test_config ''Z'' 5)
   \<and> (\<exists>s'. run_analysis (test_config ''Z'' 5) (test_world chain_fixture) = Inr s'
          \<and> dependency_graph s' = [(''Z'', [])])"
proof -
  let ?cfg = "test_config ''Z'' 5" and ?w = "test_world chain_fixture"
  have h1: "mode ?cfg = ''test''" by (simp add: test_config_def)
  have h2: "files ?w (repository_url ?cfg) = Some chain_fixture"
    by (simp add: test_config_def test_world_def)
  have h3: "package_name ?cfg \<notin> set (keys chain_fixture)"
    by (simp add: keys_def chain_fixture_def test_config_def)
  have h4: "0 \<le> max_depth ?cfg" by (simp add: test_config_def)
  have n: "package_name ?cfg = ''Z''" by (simp add: test_config_def)
  from missing_package_recorded[OF h1 h2] h3 h4
  have "\<exists>s'. run_analysis ?cfg ?w = Inr s' \<and> dependency_graph s' = [(package_name ?cfg, [])]"
    by blast
  with n have "\<exists>s'. run_analysis ?cfg ?w = Inr s' \<and> dependency_graph s' = [(''Z'', [])]"
    by simp
  with h1 h2 h3 h4 show ?thesis by blast
qed

end
